theory Spec2Isabelle
  imports Main "HOL-Library.Word" "HOL-Library.AList" "HOL-Library.Multiset"
begin

unbundle bit_operations_syntax

section \<open>Data model of syncmap.go\<close>

text \<open>
  A Go \<^verbatim>\<open>interface{}\<close> value is either \<^verbatim>\<open>nil\<close> or carries a payload; the
  container never inspects the payload, so it is a type parameter.
\<close>

datatype 'v iface = Nil | Val 'v

text \<open>
  A Go \<^verbatim>\<open>map[string]interface{}\<close> is represented by an association list with
  pairwise distinct keys (the predicate \<open>distinct_keys\<close> below). The order of
  the list is an artefact of the representation: a \<^verbatim>\<open>range\<close> over a Go map
  yields the entries in an unspecified order, which every traversal below receives as
  an argument (a function that rearranges the entries of the shard with a given index).
  Keys are Go strings, that is byte sequences: \<open>string\<close>.
\<close>

type_synonym 'v gomap = "(string \<times> 'v iface) list"

type_synonym 'v range_order = "nat \<Rightarrow> 'v gomap \<Rightarrow> 'v gomap"

text \<open>The panics the code can raise, as values.\<close>

datatype panic =
    MapIsEmpty          \<comment> \<open>\<^verbatim>\<open>panic("syncmap: map is empty")\<close> in \<^verbatim>\<open>Pop\<close>\<close>
  | IndexOutOfRange     \<comment> \<open>the runtime panic of \<^verbatim>\<open>m.shards[i]\<close>\<close>
  | MakeLenOutOfRange   \<comment> \<open>the runtime panic of \<^verbatim>\<open>make\<close> with a negative length\<close>
  | IntnInvalidArgument \<comment> \<open>the panic of \<^verbatim>\<open>rand.Intn(n)\<close> for \<^verbatim>\<open>n <= 0\<close>\<close>

record 'v ShardMap =
  items :: "'v gomap"

record 'v SyncMap =
  shardCount :: int
  shards :: "'v ShardMap list"

record 'v Item =
  Key :: string
  Value :: "'v iface"

definition defaultShardCount :: int where
  "defaultShardCount = 128"

subsection \<open>The operations of Go maps that the code uses\<close>

text \<open>\<^verbatim>\<open>v, ok := m[key]\<close>: the zero value \<^verbatim>\<open>nil\<close> and \<^verbatim>\<open>false\<close> for a missing key.\<close>

definition map_index :: "'v gomap \<Rightarrow> string \<Rightarrow> 'v iface \<times> bool" where
  "map_index mp key = (case map_of mp key of None \<Rightarrow> (Nil, False) | Some v \<Rightarrow> (v, True))"

text \<open>\<^verbatim>\<open>m[key] = val\<close>, \<^verbatim>\<open>delete(m, key)\<close>, \<^verbatim>\<open>len(m)\<close>.\<close>

definition map_assign :: "'v gomap \<Rightarrow> string \<Rightarrow> 'v iface \<Rightarrow> 'v gomap" where
  "map_assign mp key val = AList.update key val mp"

definition map_delete :: "'v gomap \<Rightarrow> string \<Rightarrow> 'v gomap" where
  "map_delete mp key = AList.delete key mp"

definition map_len :: "'v gomap \<Rightarrow> nat" where
  "map_len mp = length mp"

definition distinct_keys :: "'v gomap \<Rightarrow> bool" where
  "distinct_keys mp = distinct (map fst mp)"

subsection \<open>Shards\<close>

definition GetNotLock :: "'v ShardMap \<Rightarrow> string \<Rightarrow> 'v iface \<times> bool" where
  "GetNotLock sd key = map_index (items sd) key"

definition SetNotLock :: "'v ShardMap \<Rightarrow> string \<Rightarrow> 'v iface \<Rightarrow> 'v ShardMap" where
  "SetNotLock sd key val = sd\<lparr>items := map_assign (items sd) key val\<rparr>"

definition DeleteNotLock :: "'v ShardMap \<Rightarrow> string \<Rightarrow> 'v ShardMap" where
  "DeleteNotLock sd key = sd\<lparr>items := map_delete (items sd) key\<rparr>"

subsection \<open>Construction\<close>

text \<open>
  \<^verbatim>\<open>NewWithShard\<close>: a count of zero becomes the default; \<^verbatim>\<open>make\<close> panics on a
  negative length (and on one beyond the memory of the machine, which has no bound
  here); every shard starts with an empty map.
\<close>

definition NewWithShard :: "int \<Rightarrow> panic + 'v SyncMap" where
  "NewWithShard n =
     (let c = (if n = 0 then defaultShardCount else n)
      in if c < 0 then Inl MakeLenOutOfRange
         else Inr \<lparr>shardCount = c, shards = replicate (nat c) \<lparr>items = []\<rparr>\<rparr>)"

definition New :: "panic + 'v SyncMap" where
  "New = NewWithShard defaultShardCount"

section \<open>Hash router\<close>

definition prime32 :: "32 word" where
  "prime32 = 16777619"

text \<open>The loop of \<^verbatim>\<open>fnv32\<close> over the bytes of the key, from a current hash.\<close>

fun fnv32_loop :: "string \<Rightarrow> 32 word \<Rightarrow> 32 word" where
  "fnv32_loop [] hash = hash"
| "fnv32_loop (c # cs) hash = fnv32_loop cs ((hash * prime32) XOR of_nat (of_char c))"

definition fnv32 :: "string \<Rightarrow> 32 word" where
  "fnv32 key = fnv32_loop key 2166136261"

text \<open>
  The index expression of \<^verbatim>\<open>locate\<close>: \<^verbatim>\<open>fnv32(key) & uint32(m.shardCount-1)\<close>.
  The conversion of an \<^verbatim>\<open>int\<close> to \<^verbatim>\<open>uint32\<close> keeps the low 32 bits.
\<close>

definition shard_index :: "int \<Rightarrow> string \<Rightarrow> nat" where
  "shard_index n key = unat (fnv32 key AND word_of_int (n - 1))"

text \<open>
  \<^verbatim>\<open>locate\<close> returns a pointer to the shard; here it is the position of the shard
  in \<open>shards\<close>. Indexing the slice beyond its length panics.
\<close>

definition locate :: "'v SyncMap \<Rightarrow> string \<Rightarrow> panic + nat" where
  "locate m key =
     (let i = shard_index (shardCount m) key
      in if i < length (shards m) then Inr i else Inl IndexOutOfRange)"

definition Locate :: "'v SyncMap \<Rightarrow> string \<Rightarrow> panic + nat" where
  "Locate m key = locate m key"

text \<open>
  The hash as the specification words it, on natural numbers with the reduction modulo
  \<open>2 ^ 32\<close> written out: multiply by the prime, then xor the byte in.
\<close>

definition fnv_step :: "char \<Rightarrow> nat \<Rightarrow> nat" where
  "fnv_step c h = ((h * 16777619) mod 2 ^ 32) XOR of_char c"

definition fnv_spec :: "string \<Rightarrow> nat" where
  "fnv_spec key = fold fnv_step key 2166136261"

section \<open>Keyed operations\<close>

definition Get :: "'v SyncMap \<Rightarrow> string \<Rightarrow> panic + ('v iface \<times> bool)" where
  "Get m key =
     (case locate m key of
        Inl e \<Rightarrow> Inl e
      | Inr i \<Rightarrow> Inr (map_index (items (shards m ! i)) key))"

definition Set :: "'v SyncMap \<Rightarrow> string \<Rightarrow> 'v iface \<Rightarrow> panic + 'v SyncMap" where
  "Set m key val =
     (case locate m key of
        Inl e \<Rightarrow> Inl e
      | Inr i \<Rightarrow>
          Inr (m\<lparr>shards := (shards m)[i := (shards m ! i)\<lparr>items := map_assign (items (shards m ! i)) key val\<rparr>]\<rparr>))"

definition Delete :: "'v SyncMap \<Rightarrow> string \<Rightarrow> panic + 'v SyncMap" where
  "Delete m key =
     (case locate m key of
        Inl e \<Rightarrow> Inl e
      | Inr i \<Rightarrow>
          Inr (m\<lparr>shards := (shards m)[i := (shards m ! i)\<lparr>items := map_delete (items (shards m ! i)) key\<rparr>]\<rparr>))"

definition Has :: "'v SyncMap \<Rightarrow> string \<Rightarrow> panic + bool" where
  "Has m key = (case Get m key of Inl e \<Rightarrow> Inl e | Inr (v, ok) \<Rightarrow> Inr ok)"

text \<open>
  \<^verbatim>\<open>strings.Join\<close> of the Go standard library: nothing for no element, the element
  itself for one, otherwise the first element followed by each further element behind
  a separator.
\<close>

fun strings_Join :: "string list \<Rightarrow> string \<Rightarrow> string" where
  "strings_Join [] sep = []"
| "strings_Join [e] sep = e"
| "strings_Join (e # es) sep = e @ concat (map (\<lambda>s. sep @ s) es)"

definition GetJoinKey :: "'v SyncMap \<Rightarrow> string list \<Rightarrow> panic + ('v iface \<times> bool)" where
  "GetJoinKey m key = Get m (strings_Join key ''-'')"

text \<open>
  Joining with a separator as the specification words it: the parts in order, with the
  separator between each two neighbours.
\<close>

fun joined :: "string \<Rightarrow> string list \<Rightarrow> string" where
  "joined sep [] = []"
| "joined sep [p] = p"
| "joined sep (p # q # ps) = p @ sep @ joined sep (q # ps)"

section \<open>Collection-wide operations\<close>

text \<open>
  Locks are not modelled: every operation runs alone, from the state its predecessor
  left. Lengths and sizes are natural numbers (they are never negative, and a sum of
  map lengths that fits in memory does not wrap a Go \<^verbatim>\<open>int\<close>).
\<close>

fun Size_loop :: "'v ShardMap list \<Rightarrow> nat \<Rightarrow> nat" where
  "Size_loop [] sz = sz"
| "Size_loop (shard # rest) sz = Size_loop rest (sz + map_len (items shard))"

definition Size :: "'v SyncMap \<Rightarrow> nat" where
  "Size m = Size_loop (shards m) 0"

text \<open>\<^verbatim>\<open>Flush\<close> returns the count and leaves the container with every map replaced.\<close>

fun Flush_loop :: "'v ShardMap list \<Rightarrow> nat \<Rightarrow> nat \<times> 'v ShardMap list" where
  "Flush_loop [] sz = (sz, [])"
| "Flush_loop (shard # rest) sz =
     (case Flush_loop rest (sz + map_len (items shard)) of
        (cnt, rest') \<Rightarrow> (cnt, shard\<lparr>items := []\<rparr> # rest'))"

definition Flush :: "'v SyncMap \<Rightarrow> nat \<times> 'v SyncMap" where
  "Flush m = (case Flush_loop (shards m) 0 of (cnt, shards') \<Rightarrow> (cnt, m\<lparr>shards := shards'\<rparr>))"

text \<open>
  The entry that \<^verbatim>\<open>for key, value = range shard.items { break }\<close> leaves in
  \<^verbatim>\<open>key\<close> and \<^verbatim>\<open>value\<close>: the first one in the order of the range, and the zero
  values when the range yields nothing.
\<close>

definition first_of_range :: "'v gomap \<Rightarrow> string \<times> 'v iface" where
  "first_of_range es = (case es of [] \<Rightarrow> ([], Nil) | kv # _ \<Rightarrow> kv)"

text \<open>
  The retry loop of \<^verbatim>\<open>Pop\<close>. Its first argument lists the results of the successive
  calls of \<^verbatim>\<open>rand.Intn(n)\<close> (each is below \<^verbatim>\<open>n\<close>, which the properties below
  assume of the list); the loop has no bound, so \<open>None\<close> stands for a loop that is
  still running when the listed draws are used up. The result carries the container as
  the call leaves it, also when it panics.
\<close>

fun Pop_loop ::
  "nat list \<Rightarrow> 'v range_order \<Rightarrow> 'v SyncMap \<Rightarrow> ((panic + string \<times> 'v iface) \<times> 'v SyncMap) option" where
  "Pop_loop [] ord m = None"
| "Pop_loop (idx # draws) ord m =
     (if \<not> idx < length (shards m) then Some (Inl IndexOutOfRange, m)
      else
        let shard = shards m ! idx
        in if map_len (items shard) > 0 then
             (case first_of_range (ord idx (items shard)) of
                (key, val) \<Rightarrow>
                  Some (Inr (key, val),
                        m\<lparr>shards := (shards m)[idx := shard\<lparr>items := map_delete (items shard) key\<rparr>]\<rparr>))
           else Pop_loop draws ord m)"

definition Pop ::
  "nat list \<Rightarrow> 'v range_order \<Rightarrow> 'v SyncMap \<Rightarrow> ((panic + string \<times> 'v iface) \<times> 'v SyncMap) option" where
  "Pop draws ord m =
     (if Size m = 0 then Some (Inl MapIsEmpty, m)
      else if shardCount m \<le> 0 then Some (Inl IntnInvalidArgument, m)
      else Pop_loop draws ord m)"

section \<open>Iteration\<close>

text \<open>
  A visitor is a Go closure: it may change state of its own (of type \<open>'s\<close>) on every
  call, and the break-capable ones return whether to go on. It does not change the
  container, whose shard is read-locked while it runs. The inner loops return
  \<^verbatim>\<open>stop\<close> with the state; the outer loops count the shards, so that the range over
  each shard can have an order of its own.
\<close>

fun range_keys :: "(string \<Rightarrow> 's \<Rightarrow> bool \<times> 's) \<Rightarrow> 'v gomap \<Rightarrow> 's \<Rightarrow> bool \<times> 's" where
  "range_keys iter [] s = (False, s)"
| "range_keys iter ((key, _) # es) s =
     (case iter key s of
        (go_on, s') \<Rightarrow> if \<not> go_on then (True, s') else range_keys iter es s')"

fun EachKeyWithBreak_loop ::
  "(string \<Rightarrow> 's \<Rightarrow> bool \<times> 's) \<Rightarrow> 'v range_order \<Rightarrow> nat \<Rightarrow> 'v ShardMap list \<Rightarrow> 's \<Rightarrow> 's" where
  "EachKeyWithBreak_loop iter ord i [] s = s"
| "EachKeyWithBreak_loop iter ord i (shard # rest) s =
     (case range_keys iter (ord i (items shard)) s of
        (stop, s') \<Rightarrow> if stop then s' else EachKeyWithBreak_loop iter ord (Suc i) rest s')"

definition EachKeyWithBreak ::
  "(string \<Rightarrow> 's \<Rightarrow> bool \<times> 's) \<Rightarrow> 'v range_order \<Rightarrow> 'v SyncMap \<Rightarrow> 's \<Rightarrow> 's" where
  "EachKeyWithBreak iter ord m s = EachKeyWithBreak_loop iter ord 0 (shards m) s"

fun range_items :: "('v Item \<Rightarrow> 's \<Rightarrow> bool \<times> 's) \<Rightarrow> 'v gomap \<Rightarrow> 's \<Rightarrow> bool \<times> 's" where
  "range_items iter [] s = (False, s)"
| "range_items iter ((key, val) # es) s =
     (case iter \<lparr>Key = key, Value = val\<rparr> s of
        (go_on, s') \<Rightarrow> if \<not> go_on then (True, s') else range_items iter es s')"

fun EachItemWithBreak_loop ::
  "('v Item \<Rightarrow> 's \<Rightarrow> bool \<times> 's) \<Rightarrow> 'v range_order \<Rightarrow> nat \<Rightarrow> 'v ShardMap list \<Rightarrow> 's \<Rightarrow> 's" where
  "EachItemWithBreak_loop iter ord i [] s = s"
| "EachItemWithBreak_loop iter ord i (shard # rest) s =
     (case range_items iter (ord i (items shard)) s of
        (stop, s') \<Rightarrow> if stop then s' else EachItemWithBreak_loop iter ord (Suc i) rest s')"

definition EachItemWithBreak ::
  "('v Item \<Rightarrow> 's \<Rightarrow> bool \<times> 's) \<Rightarrow> 'v range_order \<Rightarrow> 'v SyncMap \<Rightarrow> 's \<Rightarrow> 's" where
  "EachItemWithBreak iter ord m s = EachItemWithBreak_loop iter ord 0 (shards m) s"

definition EachItem :: "('v Item \<Rightarrow> 's \<Rightarrow> 's) \<Rightarrow> 'v range_order \<Rightarrow> 'v SyncMap \<Rightarrow> 's \<Rightarrow> 's" where
  "EachItem iter ord m s = EachItemWithBreak (\<lambda>item t. (True, iter item t)) ord m s"

section \<open>Containers, range orders and runs\<close>

text \<open>
  The containers that \<^verbatim>\<open>NewWithShard\<close> makes and the operations keep: a positive
  shard count, as many shards, and in the shard at position \<open>i\<close> a map with distinct
  keys that all route to \<open>i\<close>.
\<close>

definition well_formed :: "'v SyncMap \<Rightarrow> bool" where
  "well_formed m =
     (0 < shardCount m \<and> int (length (shards m)) = shardCount m \<and>
      (\<forall>(i, shard) \<in> set (enumerate 0 (shards m)).
         distinct_keys (items shard) \<and>
         (\<forall>(key, val) \<in> set (items shard). shard_index (shardCount m) key = i)))"

text \<open>A range yields every entry of the map once, in some order.\<close>

definition range_order :: "'v range_order \<Rightarrow> bool" where
  "range_order ord = (\<forall>i es. mset (ord i es) = mset es)"

text \<open>The entries in the order in which a traversal of the whole container meets them.\<close>

fun walk :: "'v range_order \<Rightarrow> nat \<Rightarrow> 'v ShardMap list \<Rightarrow> (string \<times> 'v iface) list" where
  "walk ord i [] = []"
| "walk ord i (shard # rest) = ord i (items shard) @ walk ord (Suc i) rest"

text \<open>
  Visiting a list of entries in order until the visitor declines to go on: nothing
  behind that entry is visited.
\<close>

fun visit_until :: "('a \<Rightarrow> 's \<Rightarrow> bool \<times> 's) \<Rightarrow> 'a list \<Rightarrow> 's \<Rightarrow> 's" where
  "visit_until iter [] s = s"
| "visit_until iter (x # xs) s =
     (case iter x s of (go_on, s') \<Rightarrow> if go_on then visit_until iter xs s' else s')"

definition item_of :: "string \<times> 'v iface \<Rightarrow> 'v Item" where
  "item_of kv = \<lparr>Key = fst kv, Value = snd kv\<rparr>"

text \<open>A visitor that records what it is called with, and answers by a predicate.\<close>

definition recording :: "('a \<Rightarrow> bool) \<Rightarrow> 'a \<Rightarrow> 'a list \<Rightarrow> bool \<times> 'a list" where
  "recording p x seen = (p x, seen @ [x])"

text \<open>Calls of the container's operations, what they return, and sequences of calls.\<close>

datatype 'v call =
    CallSet string "'v iface"
  | CallDelete string
  | CallGet string
  | CallHas string
  | CallGetJoinKey "string list"
  | CallSize
  | CallFlush
  | CallPop "nat list" "'v range_order"

datatype 'v reply =
    Done
  | Found "'v iface" bool
  | Answer bool
  | Count nat
  | Popped string "'v iface"

fun perform :: "'v call \<Rightarrow> 'v SyncMap \<Rightarrow> ((panic + 'v reply) \<times> 'v SyncMap) option" where
  "perform (CallSet key val) m =
     (case Set m key val of Inl e \<Rightarrow> Some (Inl e, m) | Inr m' \<Rightarrow> Some (Inr Done, m'))"
| "perform (CallDelete key) m =
     (case Delete m key of Inl e \<Rightarrow> Some (Inl e, m) | Inr m' \<Rightarrow> Some (Inr Done, m'))"
| "perform (CallGet key) m =
     (case Get m key of Inl e \<Rightarrow> Some (Inl e, m) | Inr (v, ok) \<Rightarrow> Some (Inr (Found v ok), m))"
| "perform (CallHas key) m =
     (case Has m key of Inl e \<Rightarrow> Some (Inl e, m) | Inr ok \<Rightarrow> Some (Inr (Answer ok), m))"
| "perform (CallGetJoinKey parts) m =
     (case GetJoinKey m parts of
        Inl e \<Rightarrow> Some (Inl e, m)
      | Inr (v, ok) \<Rightarrow> Some (Inr (Found v ok), m))"
| "perform CallSize m = Some (Inr (Count (Size m)), m)"
| "perform CallFlush m = (case Flush m of (cnt, m') \<Rightarrow> Some (Inr (Count cnt), m'))"
| "perform (CallPop draws ord) m =
     (case Pop draws ord m of
        None \<Rightarrow> None
      | Some (Inl e, m') \<Rightarrow> Some (Inl e, m')
      | Some (Inr (key, val), m') \<Rightarrow> Some (Inr (Popped key val), m'))"

text \<open>
  A run makes the calls one after the other and stops at the first that panics or does
  not return.
\<close>

fun run :: "'v call list \<Rightarrow> 'v SyncMap \<Rightarrow> ((panic + 'v reply list) \<times> 'v SyncMap) option" where
  "run [] m = Some (Inr [], m)"
| "run (c # cs) m =
     (case perform c m of
        None \<Rightarrow> None
      | Some (Inl e, m') \<Rightarrow> Some (Inl e, m')
      | Some (Inr r, m') \<Rightarrow>
          (case run cs m' of
             None \<Rightarrow> None
           | Some (Inl e, m'') \<Rightarrow> Some (Inl e, m'')
           | Some (Inr rs, m'') \<Rightarrow> Some (Inr (r # rs), m'')))"

text \<open>The calls and replies after which a key may be gone, and the calls that store it.\<close>

fun stores :: "string \<Rightarrow> 'v call \<Rightarrow> bool" where
  "stores k (CallSet key val) = (key = k)"
| "stores k c = False"

fun removes :: "string \<Rightarrow> 'v call \<Rightarrow> bool" where
  "removes k (CallDelete key) = (key = k)"
| "removes k CallFlush = True"
| "removes k c = False"

fun pops :: "string \<Rightarrow> 'v reply \<Rightarrow> bool" where
  "pops k (Popped key val) = (key = k)"
| "pops k r = False"

text \<open>Deleting a key from the map of one shard, as \<^verbatim>\<open>Pop\<close> does.\<close>

definition without :: "'v SyncMap \<Rightarrow> nat \<Rightarrow> string \<Rightarrow> 'v SyncMap" where
  "without m idx key =
     m\<lparr>shards := (shards m)[idx := (shards m ! idx)\<lparr>items := map_delete (items (shards m ! idx)) key\<rparr>]\<rparr>"

text \<open>Containers for the examples: four shards, empty, and with a value under \<^verbatim>\<open>a\<close>.\<close>

abbreviation (input) four_empty :: "nat SyncMap" where
  "four_empty \<equiv>
     \<lparr>shardCount = 4, shards = [\<lparr>items = []\<rparr>, \<lparr>items = []\<rparr>, \<lparr>items = []\<rparr>, \<lparr>items = []\<rparr>]\<rparr>"

abbreviation (input) four_a :: "nat SyncMap" where
  "four_a \<equiv>
     \<lparr>shardCount = 4,
      shards = [\<lparr>items = []\<rparr>, \<lparr>items = []\<rparr>, \<lparr>items = [(''a'', Val 1)]\<rparr>, \<lparr>items = []\<rparr>]\<rparr>"

text \<open>The items that \<^verbatim>\<open>EachItem\<close> calls its visitor with, in the order of the calls.\<close>

definition EachItem_calls :: "'v range_order \<Rightarrow> 'v SyncMap \<Rightarrow> 'v Item list" where
  "EachItem_calls ord m = EachItem (\<lambda>item seen. seen @ [item]) ord m []"

text \<open>A container of four shards with four entries, two of them in one shard.\<close>

abbreviation (input) four_abce :: "nat SyncMap" where
  "four_abce \<equiv>
     \<lparr>shardCount = 4,
      shards = [\<lparr>items = [(''c'', Val 3)]\<rparr>, \<lparr>items = [(''b'', Val 2)]\<rparr>,
                \<lparr>items = [(''a'', Val 1), (''e'', Nil)]\<rparr>, \<lparr>items = []\<rparr>]\<rparr>"

section \<open>Properties of the hash router\<close>

lemma unat_byte: "unat (of_nat (of_char c) :: 32 word) = of_char c"
proof -
  have "(of_char c :: nat) < 256" by (rule nat_of_char_less_256)
  then have "(of_char c :: nat) < 2 ^ 32" by (rule order_less_trans) simp
  then show ?thesis by (simp add: unat_of_nat)
qed

lemma unat_fnv_step: "unat ((h * prime32) XOR of_nat (of_char c)) = fnv_step c (unat h)"
proof -
  have "unat (h * prime32) = (unat h * 16777619) mod 2 ^ 32"
    by (simp add: unat_word_ariths prime32_def)
  then show ?thesis
    by (simp add: fnv_step_def unsigned_xor_eq unat_byte)
qed

lemma unat_fnv32_loop: "unat (fnv32_loop key h) = fold fnv_step key (unat h)"
  by (induction key arbitrary: h) (simp_all add: unat_fnv_step)

lemma unat_fnv32: "unat (fnv32 key) = fnv_spec key"
  by (simp add: fnv32_def fnv_spec_def unat_fnv32_loop)

text \<open>Masking with the low 32 bits of a number is masking with the number.\<close>

lemma uint_and_low: "uint ((w :: 32 word) AND word_of_int k) = uint w AND k"
proof (rule bit_eqI)
  fix i
  show "bit (uint (w AND word_of_int k)) i = bit (uint w AND k) i"
    by (auto simp: bit_simps dest: bit_imp_le_length)
qed

lemma shard_index_int: "int (shard_index n key) = uint (fnv32 key) AND (n - 1)"
proof -
  have "int (shard_index n key) = uint (fnv32 key AND word_of_int (n - 1))"
    unfolding shard_index_def by (rule uint_nat [symmetric])
  then show ?thesis by (simp only: uint_and_low)
qed

lemma shard_index_less: "0 < n \<Longrightarrow> int (shard_index n key) < n"
proof -
  assume "0 < n"
  then have "uint (fnv32 key) AND (n - 1) \<le> n - 1"
    by (intro AND_upper2) simp
  then show ?thesis by (simp add: shard_index_int)
qed

lemma shard_index_pow2: "shard_index (2 ^ j) key = fnv_spec key AND (2 ^ j - 1)"
proof -
  have "int (shard_index (2 ^ j) key) = int (unat (fnv32 key)) AND (2 ^ j - 1)"
    by (simp only: shard_index_int uint_nat)
  also have "\<dots> = int (fnv_spec key AND (2 ^ j - 1))"
    by (simp add: unat_fnv32 of_nat_and_eq of_nat_diff)
  finally show ?thesis by (simp only: of_nat_eq_iff)
qed

text \<open>
  Claim C2. For a shard count that is a power of two, the hash of \<^verbatim>\<open>fnv32\<close> is the
  one obtained from the seed 2166136261 by multiplying by 16777619 and then xoring the
  byte in, for each byte of the key in order and modulo \<open>2 ^ 32\<close>; \<^verbatim>\<open>locate\<close>
  returns the shard at the position that masks this hash with the shard count minus one,
  without a panic; the position is below the shard count. It is given by the key and the
  shard count alone, hence the same on every call.
\<close>

theorem locate_power_of_two:
  assumes "shardCount m = 2 ^ j" and "int (length (shards m)) = shardCount m"
  shows "unat (fnv32 key) = fold fnv_step key 2166136261 \<and>
         locate m key = Inr (fnv_spec key AND (2 ^ j - 1)) \<and>
         fnv_spec key AND (2 ^ j - 1) < 2 ^ j"
proof -
  have "int (shard_index (2 ^ j) key) < 2 ^ j"
    by (rule shard_index_less) simp
  then have less: "shard_index (2 ^ j) key < 2 ^ j"
    by (metis of_nat_less_iff of_nat_numeral of_nat_power)
  moreover have "length (shards m) = 2 ^ j"
    using assms by (metis of_nat_eq_iff of_nat_numeral of_nat_power)
  moreover have "unat (fnv32 key) = fold fnv_step key 2166136261"
    using unat_fnv32 [of key] by (simp add: fnv_spec_def)
  ultimately show ?thesis
    using assms(1) by (simp add: locate_def shard_index_pow2)
qed

theorem locate_power_of_two_witness:
  "shardCount \<lparr>shardCount = 4, shards = replicate 4 \<lparr>items = ([] :: nat gomap)\<rparr>\<rparr> = 2 ^ 2 \<and>
   int (length (shards \<lparr>shardCount = 4, shards = replicate 4 \<lparr>items = ([] :: nat gomap)\<rparr>\<rparr>)) =
     shardCount \<lparr>shardCount = 4, shards = replicate 4 \<lparr>items = ([] :: nat gomap)\<rparr>\<rparr> \<and>
   unat (fnv32 ''user-42'') = 2042747895 \<and>
   locate \<lparr>shardCount = 4, shards = replicate 4 \<lparr>items = ([] :: nat gomap)\<rparr>\<rparr> ''user-42'' = Inr 3"
  using locate_power_of_two
    [of "\<lparr>shardCount = 4, shards = replicate 4 \<lparr>items = ([] :: nat gomap)\<rparr>\<rparr>" 2 "''user-42''"]
  by (simp add: fnv_spec_def fnv_step_def)

section \<open>Joined keys\<close>

lemma strings_Join_joined: "strings_Join parts sep = joined sep parts"
proof (induction sep parts rule: joined.induct)
  case (3 sep p q ps)
  then show ?case by (cases ps) simp_all
qed simp_all

text \<open>
  Claim C9. \<^verbatim>\<open>GetJoinKey\<close> of any sequence of parts returns what \<^verbatim>\<open>Get\<close> returns for
  the parts joined with the separator \<^verbatim>\<open>-\<close> (value, found flag, or the same panic);
  for the parts \<^verbatim>\<open>user\<close> and \<^verbatim>\<open>42\<close> that key is \<^verbatim>\<open>user-42\<close>.
\<close>

theorem GetJoinKey_is_Get_joined:
  "GetJoinKey m parts = Get m (joined ''-'' parts) \<and>
   GetJoinKey m [''user'', ''42''] = Get m ''user-42''"
  by (simp add: GetJoinKey_def strings_Join_joined)

section \<open>Size and Flush\<close>

lemma Size_loop_sum: "Size_loop ss n = n + length (concat (map items ss))"
  by (induction ss arbitrary: n) (simp_all add: map_len_def)

lemma Flush_loop_eq:
  "Flush_loop ss n = (n + length (concat (map items ss)), map (\<lambda>sd. sd\<lparr>items := []\<rparr>) ss)"
  by (induction ss arbitrary: n) (simp_all add: map_len_def)

lemma Size_eq: "Size m = length (concat (map items (shards m)))"
  by (simp add: Size_def Size_loop_sum)

lemma Flush_eq: "Flush m = (Size m, m\<lparr>shards := map (\<lambda>sd. sd\<lparr>items := []\<rparr>) (shards m)\<rparr>)"
  by (simp add: Flush_def Flush_loop_eq Size_eq)

text \<open>
  Claim C6. \<^verbatim>\<open>Flush\<close> returns what \<^verbatim>\<open>Size\<close> returns just before it, which is the
  number of entries in all shards together; just after it \<^verbatim>\<open>Size\<close> returns 0, and
  every shard (there are as many as before) holds an empty map.
\<close>

theorem Flush_returns_Size_and_empties:
  "fst (Flush m) = Size m \<and>
   Size m = length (concat (map items (shards m))) \<and>
   Size (snd (Flush m)) = 0 \<and>
   map items (shards (snd (Flush m))) = replicate (length (shards m)) []"
  by (simp add: Flush_eq Size_eq comp_def map_replicate_const)

section \<open>Keyed operations on located shards\<close>

lemma map_index_assign:
  "map_index (map_assign mp k v) k' = (if k' = k then (v, True) else map_index mp k')"
  by (simp add: map_index_def map_assign_def update_conv')

lemma map_index_delete:
  "map_index (map_delete mp k) k' = (if k' = k then (Nil, False) else map_index mp k')"
  by (simp add: map_index_def map_delete_def delete_conv')

lemma well_formed_iff:
  "well_formed m \<longleftrightarrow>
     0 < shardCount m \<and> int (length (shards m)) = shardCount m \<and>
     (\<forall>i < length (shards m).
        distinct_keys (items (shards m ! i)) \<and>
        (\<forall>kv \<in> set (items (shards m ! i)). shard_index (shardCount m) (fst kv) = i))"
proof -
  have "(\<forall>(i, shard) \<in> set (enumerate 0 (shards m)).
           distinct_keys (items shard) \<and>
           (\<forall>(key, val) \<in> set (items shard). shard_index (shardCount m) key = i)) \<longleftrightarrow>
        (\<forall>i < length (shards m).
           distinct_keys (items (shards m ! i)) \<and>
           (\<forall>kv \<in> set (items (shards m ! i)). shard_index (shardCount m) (fst kv) = i))"
    (is "?L \<longleftrightarrow> ?R")
  proof
    assume l: ?L
    show ?R
    proof (intro allI impI)
      fix i assume "i < length (shards m)"
      then have "(i, shards m ! i) \<in> set (enumerate 0 (shards m))"
        by (simp add: in_set_enumerate_eq)
      with l show "distinct_keys (items (shards m ! i)) \<and>
           (\<forall>kv \<in> set (items (shards m ! i)). shard_index (shardCount m) (fst kv) = i)"
        by fastforce
    qed
  next
    assume r: ?R
    show ?L
    proof (clarify, intro conjI ballI)
      fix i shard assume "(i, shard) \<in> set (enumerate 0 (shards m))"
      then have i: "i < length (shards m)" and sh: "shard = shards m ! i"
        by (simp_all add: in_set_enumerate_eq)
      from r i sh show "distinct_keys (items shard)" by simp
      fix kv assume "kv \<in> set (items shard)"
      with r i sh show "case kv of (key, val) \<Rightarrow> shard_index (shardCount m) key = i"
        by (cases kv) fastforce
    qed
  qed
  then show ?thesis unfolding well_formed_def by simp
qed

lemma well_formed_locate:
  assumes "well_formed m"
  shows "locate m k = Inr (shard_index (shardCount m) k)"
    and "shard_index (shardCount m) k < length (shards m)"
proof -
  from assms have pos: "0 < shardCount m" and len: "int (length (shards m)) = shardCount m"
    by (simp_all add: well_formed_iff)
  from shard_index_less [OF pos, of k] len
  show "shard_index (shardCount m) k < length (shards m)" by simp
  then show "locate m k = Inr (shard_index (shardCount m) k)"
    by (simp add: locate_def)
qed

text \<open>What Set, Delete do to Get, whenever the key of the operation can be located.\<close>

lemma locate_shape:
  "shardCount m' = shardCount m \<Longrightarrow> length (shards m') = length (shards m) \<Longrightarrow>
   locate m' k = locate m k"
  by (simp add: locate_def)

lemma locate_InrD: "locate m k = Inr i \<Longrightarrow> i = shard_index (shardCount m) k \<and> i < length (shards m)"
  by (auto simp: locate_def Let_def split: if_splits)

lemma Get_Set:
  assumes "Set m k v = Inr m'"
  shows "Get m' k' = (if k' = k then Inr (v, True) else Get m k')"
proof -
  from assms obtain i where i: "locate m k = Inr i"
    and m': "m' = m\<lparr>shards := (shards m)[i := (shards m ! i)\<lparr>items := map_assign (items (shards m ! i)) k v\<rparr>]\<rparr>"
    by (auto simp: Set_def split: sum.splits)
  have loc: "locate m' k' = locate m k'" by (rule locate_shape) (simp_all add: m')
  note locate_InrD [OF i]
  then show ?thesis
    using i loc by (cases "locate m k'") (auto simp: Get_def m' map_index_assign nth_list_update dest: locate_InrD)
qed

lemma Get_Delete:
  assumes "Delete m k = Inr m'"
  shows "Get m' k' = (if k' = k then Inr (Nil, False) else Get m k')"
proof -
  from assms obtain i where i: "locate m k = Inr i"
    and m': "m' = m\<lparr>shards := (shards m)[i := (shards m ! i)\<lparr>items := map_delete (items (shards m ! i)) k\<rparr>]\<rparr>"
    by (auto simp: Delete_def split: sum.splits)
  have loc: "locate m' k' = locate m k'" by (rule locate_shape) (simp_all add: m')
  note locate_InrD [OF i]
  then show ?thesis
    using i loc by (cases "locate m k'") (auto simp: Get_def m' map_index_delete nth_list_update dest: locate_InrD)
qed

lemma Get_Flush:
  "Get (snd (Flush m)) k = (case locate m k of Inl e \<Rightarrow> Inl e | Inr i \<Rightarrow> Inr (Nil, False))"
proof -
  have "locate (snd (Flush m)) k = locate m k"
    by (rule locate_shape) (simp_all add: Flush_eq)
  then show ?thesis
    by (auto simp: Get_def Flush_eq map_index_def split: sum.splits dest: locate_InrD)
qed

lemma Set_well_formed_ex: "well_formed m \<Longrightarrow> \<exists>m'. Set m k v = Inr m'"
  by (simp add: Set_def well_formed_locate)

lemma Delete_well_formed_ex: "well_formed m \<Longrightarrow> \<exists>m'. Delete m k = Inr m'"
  by (simp add: Delete_def well_formed_locate)

lemma Get_well_formed:
  "well_formed m \<Longrightarrow> Get m k = Inr (map_index (items (shards m ! shard_index (shardCount m) k)) k)"
  by (simp add: Get_def well_formed_locate)

section \<open>Pop\<close>

lemma Pop_loop_InrD:
  "Pop_loop draws ord m = Some (Inr (key, val), m') \<Longrightarrow>
   \<exists>idx. idx \<in> set draws \<and> idx < length (shards m) \<and> items (shards m ! idx) \<noteq> [] \<and>
         first_of_range (ord idx (items (shards m ! idx))) = (key, val) \<and>
         m' = without m idx key"
proof (induction draws)
  case Nil
  then show ?case by simp
next
  case (Cons d draws)
  show ?case
  proof (cases "d < length (shards m) \<and> items (shards m ! d) \<noteq> []")
    case True
    with Cons.prems show ?thesis
      by (auto simp: Let_def map_len_def without_def split: prod.splits)
  next
    case False
    with Cons.prems have "Pop_loop draws ord m = Some (Inr (key, val), m')"
      by (auto simp: Let_def map_len_def split: if_splits)
    from Cons.IH [OF this] show ?thesis by auto
  qed
qed

lemma Pop_loop_InlD:
  "Pop_loop draws ord m = Some (Inl e, m') \<Longrightarrow> m' = m"
  by (induction draws) (auto simp: Let_def split: if_splits prod.splits)

lemma Pop_InrD:
  "Pop draws ord m = Some (Inr (key, val), m') \<Longrightarrow>
   \<exists>idx. idx \<in> set draws \<and> idx < length (shards m) \<and> items (shards m ! idx) \<noteq> [] \<and>
         first_of_range (ord idx (items (shards m ! idx))) = (key, val) \<and>
         m' = without m idx key"
  by (auto simp: Pop_def split: if_splits dest: Pop_loop_InrD)

lemma Pop_InlD: "Pop draws ord m = Some (Inl e, m') \<Longrightarrow> m' = m"
  by (auto simp: Pop_def split: if_splits dest: Pop_loop_InlD)

lemma Get_without:
  assumes "idx < length (shards m)"
  shows "Get (without m idx key) k =
           (if k = key \<and> locate m k = Inr idx then Inr (Nil, False) else Get m k)"
proof -
  have loc: "locate (without m idx key) k = locate m k"
    by (rule locate_shape) (simp_all add: without_def)
  show ?thesis
    using assms loc
    by (cases "locate m k")
       (auto simp: Get_def without_def map_index_delete nth_list_update dest: locate_InrD)
qed

lemma Delete_without: "Delete m k = Inr m' \<Longrightarrow> \<exists>i. locate m k = Inr i \<and> m' = without m i k"
  by (auto simp: Delete_def without_def split: sum.splits)

section \<open>Runs of calls\<close>

lemma perform_keeps_Get:
  assumes "perform c m = Some (Inr r, m')"
    and "\<not> stores k c" and "\<not> removes k c" and "\<not> pops k r"
  shows "Get m' k = Get m k"
proof (cases c)
  case (CallSet key val)
  with assms show ?thesis by (auto split: sum.splits simp: Get_Set)
next
  case (CallDelete key)
  with assms show ?thesis by (auto split: sum.splits simp: Get_Delete)
next
  case (CallPop draws ord)
  with assms obtain key val where pop: "Pop draws ord m = Some (Inr (key, val), m')"
    and r: "r = Popped key val"
    by (auto split: option.splits sum.splits prod.splits)
  from Pop_InrD [OF pop] obtain idx where "idx < length (shards m)" "m' = without m idx key"
    by blast
  moreover from assms(4) r have "k \<noteq> key" by simp
  ultimately show ?thesis by (simp add: Get_without)
qed (use assms in \<open>auto split: sum.splits prod.splits\<close>)

lemma run_keeps_Get:
  assumes "run cs m = Some (Inr rs, m')"
    and "\<forall>c \<in> set cs. \<not> stores k c \<and> \<not> removes k c"
    and "\<forall>r \<in> set rs. \<not> pops k r"
  shows "Get m' k = Get m k"
  using assms
proof (induction cs arbitrary: m rs)
  case Nil
  then show ?case by simp
next
  case (Cons c cs)
  from Cons.prems(1) obtain r m1 rs1 where c: "perform c m = Some (Inr r, m1)"
    and cs: "run cs m1 = Some (Inr rs1, m')" and rs: "rs = r # rs1"
    by (auto split: option.splits sum.splits prod.splits)
  from Cons.prems rs have "Get m1 k = Get m k"
    by (intro perform_keeps_Get [OF c]) simp_all
  moreover from Cons.prems rs have "Get m' k = Get m1 k"
    by (intro Cons.IH [OF cs]) simp_all
  ultimately show ?case by simp
qed

lemma perform_keeps_absent:
  assumes "perform c m = Some (Inr r, m')"
    and "\<not> stores k c" and "Get m k = Inr (Nil, False)"
  shows "Get m' k = Inr (Nil, False)"
proof (cases c)
  case (CallSet key val)
  with assms show ?thesis by (auto split: sum.splits simp: Get_Set)
next
  case (CallDelete key)
  with assms show ?thesis by (auto split: sum.splits simp: Get_Delete)
next
  case CallFlush
  from assms(3) obtain i where "locate m k = Inr i"
    by (auto simp: Get_def split: sum.splits)
  with CallFlush assms(1) Get_Flush [of m k] show ?thesis
    by (auto split: prod.splits)
next
  case (CallPop draws ord)
  with assms obtain key val where pop: "Pop draws ord m = Some (Inr (key, val), m')"
    by (auto split: option.splits sum.splits prod.splits)
  from Pop_InrD [OF pop] obtain idx where "idx < length (shards m)" "m' = without m idx key"
    by blast
  with assms(3) show ?thesis by (simp add: Get_without)
qed (use assms in \<open>auto split: sum.splits prod.splits\<close>)

lemma run_keeps_absent:
  assumes "run cs m = Some (Inr rs, m')"
    and "\<forall>c \<in> set cs. \<not> stores k c"
    and "Get m k = Inr (Nil, False)"
  shows "Get m' k = Inr (Nil, False)"
  using assms
proof (induction cs arbitrary: m rs)
  case Nil
  then show ?case by simp
next
  case (Cons c cs)
  from Cons.prems(1) obtain r m1 rs1 where c: "perform c m = Some (Inr r, m1)"
    and cs: "run cs m1 = Some (Inr rs1, m')"
    by (auto split: option.splits sum.splits prod.splits)
  from Cons.prems have "Get m1 k = Inr (Nil, False)"
    by (intro perform_keeps_absent [OF c]) simp_all
  with Cons.prems show ?case
    by (intro Cons.IH [OF cs]) simp_all
qed

lemma NewWithShard_well_formed:
  assumes "NewWithShard n = Inr m"
  shows "well_formed m"
proof -
  define c where "c = (if n = 0 then defaultShardCount else n)"
  from assms have c: "0 \<le> c" and m: "m = \<lparr>shardCount = c, shards = replicate (nat c) \<lparr>items = []\<rparr>\<rparr>"
    by (auto simp: NewWithShard_def Let_def c_def split: if_splits)
  have "c \<noteq> 0" by (simp add: c_def defaultShardCount_def)
  with c have "0 < c" by simp
  then show ?thesis
    by (simp add: well_formed_iff m distinct_keys_def)
qed

lemma NewWithShard_Get:
  assumes "NewWithShard n = Inr m"
  shows "Get m k = Inr (Nil, False)"
proof -
  have wf: "well_formed m" using assms by (rule NewWithShard_well_formed)
  from assms have "shards m = replicate (length (shards m)) \<lparr>items = []\<rparr>"
    by (auto simp: NewWithShard_def Let_def split: if_splits)
  then have "items (shards m ! shard_index (shardCount m) k) = []"
    using well_formed_locate(2) [OF wf, of k] by (metis nth_replicate ShardMap.select_convs(1))
  then show ?thesis by (simp add: Get_well_formed [OF wf] map_index_def)
qed

section \<open>Set, Get and absent keys\<close>

text \<open>
  Claim C1, as stated: after \<^verbatim>\<open>Set(k, v)\<close>, \<^verbatim>\<open>Get(k)\<close> returns \<^verbatim>\<open>(v, true)\<close> until a
  later \<^verbatim>\<open>Delete(k)\<close> or \<^verbatim>\<open>Set(k, _)\<close>. It fails: after \<^verbatim>\<open>Set("a", 1)\<close> on an empty
  container of four shards, \<^verbatim>\<open>Flush()\<close> returns 1 and \<^verbatim>\<open>Get("a")\<close> then returns
  \<^verbatim>\<open>(nil, false)\<close>, with no \<^verbatim>\<open>Delete\<close> and no second \<^verbatim>\<open>Set\<close> in between.
\<close>

theorem Set_Flush_Get_counterexample:
  "run [CallSet ''a'' (Val 1), CallFlush, CallGet ''a''] four_empty =
     Some (Inr [Done, Count 1, Found Nil False], four_empty)"
  by code_simp

text \<open>
  Claim C1, amended. On a well-formed container \<^verbatim>\<open>Set(k, v)\<close> returns, and \<^verbatim>\<open>Get(k)\<close>
  then returns \<^verbatim>\<open>(v, true)\<close>; it still does after every run of calls that all return,
  none of which is \<^verbatim>\<open>Set(k, _)\<close>, \<^verbatim>\<open>Delete(k)\<close> or \<^verbatim>\<open>Flush()\<close>, and in which no
  \<^verbatim>\<open>Pop()\<close> returns the key \<open>k\<close>. Calls on other keys do not change what \<^verbatim>\<open>Get(k)\<close>
  returns.
\<close>

theorem Set_then_Get:
  assumes "well_formed m"
  shows "\<exists>m1. Set m k v = Inr m1 \<and> Get m1 k = Inr (v, True) \<and>
           (\<forall>cs rs m'.
              run cs m1 = Some (Inr rs, m') \<and>
              (\<forall>c \<in> set cs. \<not> stores k c \<and> \<not> removes k c) \<and>
              (\<forall>r \<in> set rs. \<not> pops k r) \<longrightarrow>
              Get m' k = Inr (v, True))"
proof -
  from assms obtain m1 where set: "Set m k v = Inr m1"
    using Set_well_formed_ex by blast
  then have get: "Get m1 k = Inr (v, True)" by (simp add: Get_Set)
  have "Get m' k = Inr (v, True)"
    if "run cs m1 = Some (Inr rs, m')"
      and "\<forall>c \<in> set cs. \<not> stores k c \<and> \<not> removes k c"
      and "\<forall>r \<in> set rs. \<not> pops k r" for cs rs m'
    using run_keeps_Get [OF that] get by simp
  with set get show ?thesis by blast
qed

theorem Set_then_Get_witness:
  "well_formed four_empty \<and>
   Set four_empty ''a'' (Val 1) = Inr four_a \<and>
   run [CallSet ''b'' (Val 2), CallDelete ''c'', CallPop [0, 1] (\<lambda>i es. es), CallSize] four_a =
     Some (Inr [Done, Done, Popped ''b'' (Val 2), Count 1], four_a) \<and>
   list_all (\<lambda>c :: nat call. \<not> stores ''a'' c \<and> \<not> removes ''a'' c)
     [CallSet ''b'' (Val 2), CallDelete ''c'', CallPop [0, 1] (\<lambda>i es. es), CallSize] \<and>
   list_all (\<lambda>r :: nat reply. \<not> pops ''a'' r) [Done, Done, Popped ''b'' (Val 2), Count 1] \<and>
   Get four_a ''a'' = Inr (Val 1, True)"
proof -
  have wf: "well_formed four_empty" by code_simp
  have set: "Set four_empty ''a'' (Val 1) = Inr four_a" by code_simp
  have run: "run [CallSet ''b'' (Val 2), CallDelete ''c'', CallPop [0, 1] (\<lambda>i es. es), CallSize] four_a =
     Some (Inr [Done, Done, Popped ''b'' (Val 2), Count 1], four_a)" by code_simp
  have cs: "\<forall>c \<in> set [CallSet ''b'' (Val 2), CallDelete ''c'', CallPop [0, 1] (\<lambda>i es. es), CallSize].
      \<not> stores ''a'' c \<and> \<not> removes ''a'' (c :: nat call)" by simp
  have rs: "\<forall>r \<in> set [Done, Done, Popped ''b'' (Val 2), Count (1::nat)]. \<not> pops ''a'' (r :: nat reply)"
    by simp
  from Set_then_Get [OF wf, of "''a''" "Val 1"] set
  have "\<forall>cs rs m'.
          run cs four_a = Some (Inr rs, m') \<and>
          (\<forall>c \<in> set cs. \<not> stores ''a'' c \<and> \<not> removes ''a'' c) \<and>
          (\<forall>r \<in> set rs. \<not> pops ''a'' r) \<longrightarrow>
          Get m' ''a'' = Inr (Val 1, True)"
    by auto
  with run cs rs have "Get four_a ''a'' = Inr (Val 1, True)" by blast
  with wf set run cs rs show ?thesis unfolding list_all_iff by blast
qed

text \<open>
  Claim C8. \<^verbatim>\<open>Get(k)\<close> returns \<^verbatim>\<open>(nil, false)\<close>, and no panic, for a key that was
  never set (after any run of returning calls on a new container, none of them
  \<^verbatim>\<open>Set(k, _)\<close>) and for a key that was deleted and not set again (after \<^verbatim>\<open>Delete(k)\<close>
  and any run of returning calls, none of them \<^verbatim>\<open>Set(k, _)\<close>).
\<close>

theorem unset_or_deleted_key_not_found:
  "(NewWithShard n = Inr m0 \<and> run cs m0 = Some (Inr rs, m') \<and> (\<forall>c \<in> set cs. \<not> stores k c)
      \<longrightarrow> Get m' k = Inr (Nil, False)) \<and>
   (run (CallDelete k # ds) m = Some (Inr rs', m'') \<and> (\<forall>c \<in> set ds. \<not> stores k c)
      \<longrightarrow> Get m'' k = Inr (Nil, False))"
proof (intro conjI impI; elim conjE)
  assume "NewWithShard n = Inr m0" and "run cs m0 = Some (Inr rs, m')"
    and "\<forall>c \<in> set cs. \<not> stores k c"
  then show "Get m' k = Inr (Nil, False)"
    by (intro run_keeps_absent [of cs m0 rs m' k] NewWithShard_Get [of n])
next
  assume run: "run (CallDelete k # ds) m = Some (Inr rs', m'')"
    and ds: "\<forall>c \<in> set ds. \<not> stores k c"
  from run obtain m1 rs1 where del: "Delete m k = Inr m1"
    and rest: "run ds m1 = Some (Inr rs1, m'')"
    by (auto split: option.splits sum.splits prod.splits)
  from del have "Get m1 k = Inr (Nil, False)" by (simp add: Get_Delete)
  with rest ds show "Get m'' k = Inr (Nil, False)"
    by (intro run_keeps_absent [of ds m1 rs1 m'' k])
qed

theorem unset_or_deleted_key_not_found_witness:
  "NewWithShard 4 = Inr four_empty \<and>
   run [CallSet ''b'' (Val 2), CallGet ''b'', CallDelete ''c''] four_empty =
     Some (Inr [Done, Found (Val 2) True, Done],
           \<lparr>shardCount = 4,
            shards = [\<lparr>items = []\<rparr>, \<lparr>items = [(''b'', Val 2)]\<rparr>, \<lparr>items = []\<rparr>, \<lparr>items = []\<rparr>]\<rparr>) \<and>
   list_all (\<lambda>c :: nat call. \<not> stores ''a'' c) [CallSet ''b'' (Val 2), CallGet ''b'', CallDelete ''c''] \<and>
   Get \<lparr>shardCount = 4,
        shards = [\<lparr>items = []\<rparr>, \<lparr>items = [(''b'', Val (2::nat))]\<rparr>, \<lparr>items = []\<rparr>, \<lparr>items = []\<rparr>]\<rparr> ''a'' =
     Inr (Nil, False) \<and>
   run [CallDelete ''a'', CallHas ''a'', CallSize] four_a =
     Some (Inr [Done, Answer False, Count 0], four_empty) \<and>
   list_all (\<lambda>c :: nat call. \<not> stores ''a'' c) [CallHas ''a'', CallSize] \<and>
   Get four_empty ''a'' = Inr (Nil, False)"
proof -
  have new: "NewWithShard 4 = Inr four_empty" by code_simp
  have run1: "run [CallSet ''b'' (Val 2), CallGet ''b'', CallDelete ''c''] four_empty =
     Some (Inr [Done, Found (Val 2) True, Done],
           \<lparr>shardCount = 4,
            shards = [\<lparr>items = []\<rparr>, \<lparr>items = [(''b'', Val 2)]\<rparr>, \<lparr>items = []\<rparr>, \<lparr>items = []\<rparr>]\<rparr>)"
    by code_simp
  have cs1: "\<forall>c \<in> set [CallSet ''b'' (Val 2), CallGet ''b'', CallDelete ''c'']. \<not> stores ''a'' (c :: nat call)"
    by simp
  have run2: "run [CallDelete ''a'', CallHas ''a'', CallSize] four_a =
     Some (Inr [Done, Answer False, Count 0], four_empty)"
    by code_simp
  have cs2: "\<forall>c \<in> set [CallHas ''a'', CallSize]. \<not> stores ''a'' (c :: nat call)"
    by simp
  note inst = unset_or_deleted_key_not_found
    [of 4 four_empty "[CallSet ''b'' (Val 2), CallGet ''b'', CallDelete ''c'']"
        "[Done, Found (Val 2) True, Done]"
        "\<lparr>shardCount = 4,
            shards = [\<lparr>items = []\<rparr>, \<lparr>items = [(''b'', Val 2)]\<rparr>, \<lparr>items = []\<rparr>, \<lparr>items = []\<rparr>]\<rparr>"
        "''a''" "[CallHas ''a'', CallSize]" four_a "[Done, Answer False, Count 0]" four_empty]
  from inst new run1 cs1 have g1: "Get \<lparr>shardCount = 4,
        shards = [\<lparr>items = []\<rparr>, \<lparr>items = [(''b'', Val (2::nat))]\<rparr>, \<lparr>items = []\<rparr>, \<lparr>items = []\<rparr>]\<rparr> ''a'' =
     Inr (Nil, False)" by blast
  from inst run2 cs2 have g2: "Get four_empty ''a'' = Inr (Nil, False)" by blast
  from new run1 cs1 g1 run2 cs2 g2 show ?thesis unfolding list_all_iff by blast
qed

text \<open>
  Claim C10. On a well-formed container \<^verbatim>\<open>Set(k, nil)\<close> returns, and then \<^verbatim>\<open>Get(k)\<close>
  returns \<^verbatim>\<open>(nil, true)\<close> and \<^verbatim>\<open>Has(k)\<close> returns \<^verbatim>\<open>true\<close>; for a key that no shard
  holds, \<^verbatim>\<open>Get\<close> returns \<^verbatim>\<open>(nil, false)\<close> and \<^verbatim>\<open>Has\<close> returns \<^verbatim>\<open>false\<close>. The two
  differ in the found flag alone.
\<close>

theorem stored_nil_is_found:
  assumes "well_formed m"
  shows "(\<exists>m'. Set m k Nil = Inr m' \<and> Get m' k = Inr (Nil, True) \<and> Has m' k = Inr True) \<and>
         (k' \<notin> fst ` set (concat (map items (shards m))) \<longrightarrow>
            Get m k' = Inr (Nil, False) \<and> Has m k' = Inr False)"
proof
  from assms obtain m' where set: "Set m k Nil = Inr m'"
    using Set_well_formed_ex by blast
  then have "Get m' k = Inr (Nil, True)" by (simp add: Get_Set)
  with set show "\<exists>m'. Set m k Nil = Inr m' \<and> Get m' k = Inr (Nil, True) \<and> Has m' k = Inr True"
    by (simp add: Has_def)
next
  show "k' \<notin> fst ` set (concat (map items (shards m))) \<longrightarrow>
          Get m k' = Inr (Nil, False) \<and> Has m k' = Inr False"
  proof
    assume absent: "k' \<notin> fst ` set (concat (map items (shards m)))"
    let ?i = "shard_index (shardCount m) k'"
    have "?i < length (shards m)" using assms by (rule well_formed_locate)
    then have "set (items (shards m ! ?i)) \<subseteq> set (concat (map items (shards m)))"
      by (auto intro!: bexI [of _ "shards m ! ?i"])
    with absent have "k' \<notin> fst ` set (items (shards m ! ?i))" by blast
    then have "map_of (items (shards m ! ?i)) k' = None" by (simp add: map_of_eq_None_iff)
    then have "Get m k' = Inr (Nil, False)"
      by (simp add: Get_well_formed [OF assms] map_index_def)
    then show "Get m k' = Inr (Nil, False) \<and> Has m k' = Inr False" by (simp add: Has_def)
  qed
qed

theorem stored_nil_is_found_witness:
  "well_formed four_empty \<and>
   Set four_empty ''a'' Nil =
     Inr \<lparr>shardCount = 4,
          shards = [\<lparr>items = []\<rparr>, \<lparr>items = []\<rparr>, \<lparr>items = [(''a'', Nil)]\<rparr>, \<lparr>items = []\<rparr>]\<rparr> \<and>
   Get \<lparr>shardCount = 4,
        shards = [\<lparr>items = []\<rparr>, \<lparr>items = []\<rparr>, \<lparr>items = [(''a'', Nil :: nat iface)]\<rparr>, \<lparr>items = []\<rparr>]\<rparr> ''a'' =
     Inr (Nil, True) \<and>
   ''a'' \<notin> fst ` set (concat (map items (shards four_empty))) \<and>
   Get four_empty ''a'' = Inr (Nil, False) \<and> Has four_empty ''a'' = Inr False"
proof -
  have wf: "well_formed four_empty" by code_simp
  have set: "Set four_empty ''a'' Nil =
     Inr \<lparr>shardCount = 4,
          shards = [\<lparr>items = []\<rparr>, \<lparr>items = []\<rparr>, \<lparr>items = [(''a'', Nil)]\<rparr>, \<lparr>items = []\<rparr>]\<rparr>"
    by code_simp
  have absent: "''a'' \<notin> fst ` set (concat (map items (shards four_empty)))" by simp
  from stored_nil_is_found [OF wf, of "''a''" "''a''"] set absent show ?thesis
    using wf by auto
qed

section \<open>Size and the invariant under Pop\<close>

lemma length_map_delete:
  "distinct_keys mp \<Longrightarrow> k \<in> fst ` set mp \<Longrightarrow> Suc (length (map_delete mp k)) = length mp"
proof (induction mp)
  case Nil
  then show ?case by simp
next
  case (Cons p mp)
  show ?case
  proof (cases "fst p = k")
    case True
    with Cons.prems(1) have "k \<notin> fst ` set mp" by (auto simp: distinct_keys_def)
    with True show ?thesis by (cases p) (simp add: map_delete_def)
  next
    case False
    with Cons show ?thesis by (cases p) (auto simp: map_delete_def distinct_keys_def)
  qed
qed

lemma distinct_keys_map_delete: "distinct_keys mp \<Longrightarrow> distinct_keys (map_delete mp k)"
  by (simp add: distinct_keys_def map_delete_def distinct_delete)

lemma set_map_delete: "set (map_delete mp k) \<subseteq> set mp"
  by (auto simp: map_delete_def AList.delete_eq)

lemma distinct_keys_map_assign: "distinct_keys mp \<Longrightarrow> distinct_keys (map_assign mp k v)"
  by (simp add: distinct_keys_def map_assign_def distinct_update)

lemma set_map_assign: "set (map_assign mp k v) \<subseteq> insert (k, v) (set mp)"
  unfolding map_assign_def by (induction mp) auto

lemma length_concat_update:
  assumes "i < length ss"
  shows "length (concat (map f (ss[i := y]))) + length (f (ss ! i)) =
         length (concat (map f ss)) + length (f y)"
  using assms
proof (induction ss arbitrary: i)
  case Nil
  then show ?case by simp
next
  case (Cons s ss)
  show ?case
  proof (cases i)
    case 0
    then show ?thesis by simp
  next
    case (Suc j)
    with Cons.prems have "j < length ss" by simp
    from Cons.IH [OF this] Suc show ?thesis by simp
  qed
qed

lemma Size_without:
  assumes "idx < length (shards m)" and "distinct_keys (items (shards m ! idx))"
    and "key \<in> fst ` set (items (shards m ! idx))"
  shows "Size (without m idx key) + 1 = Size m"
proof -
  let ?sd = "(shards m ! idx)\<lparr>items := map_delete (items (shards m ! idx)) key\<rparr>"
  from length_concat_update [OF assms(1), of items ?sd]
  have "length (concat (map items ((shards m)[idx := ?sd]))) + length (items (shards m ! idx)) =
        length (concat (map items (shards m))) + length (map_delete (items (shards m ! idx)) key)"
    by simp
  with length_map_delete [OF assms(2,3)] show ?thesis
    by (simp add: Size_eq without_def)
qed

lemma well_formed_update:
  assumes "well_formed m" and "idx < length (shards m)"
    and "distinct_keys mp"
    and "\<forall>kv \<in> set mp. shard_index (shardCount m) (fst kv) = idx"
  shows "well_formed (m\<lparr>shards := (shards m)[idx := (shards m ! idx)\<lparr>items := mp\<rparr>]\<rparr>)"
  using assms by (auto simp: well_formed_iff nth_list_update)

lemma well_formed_without:
  assumes "well_formed m" and "idx < length (shards m)"
  shows "well_formed (without m idx key)"
  unfolding without_def
proof (rule well_formed_update [OF assms])
  from assms show "distinct_keys (map_delete (items (shards m ! idx)) key)"
    by (simp add: well_formed_iff distinct_keys_map_delete)
  from assms set_map_delete [of "items (shards m ! idx)" key]
  show "\<forall>kv \<in> set (map_delete (items (shards m ! idx)) key). shard_index (shardCount m) (fst kv) = idx"
    by (auto simp: well_formed_iff)
qed

lemma first_of_range_in:
  assumes "range_order ord" and "es \<noteq> []"
  shows "first_of_range (ord i es) \<in> set es"
proof -
  from assms(1) have eq: "mset (ord i es) = mset es" by (simp add: range_order_def)
  with assms(2) have "ord i es \<noteq> []" by auto
  then have "first_of_range (ord i es) \<in> set (ord i es)"
    by (cases "ord i es") (simp_all add: first_of_range_def)
  with eq show ?thesis by (metis set_mset_mset)
qed

lemma Pop_loop_returns:
  assumes "\<forall>d \<in> set draws. d < length (shards m)"
    and "\<exists>d \<in> set draws. items (shards m ! d) \<noteq> []"
  shows "\<exists>key val m'. Pop_loop draws ord m = Some (Inr (key, val), m')"
  using assms
proof (induction draws)
  case Nil
  then show ?case by simp
next
  case (Cons d draws)
  show ?case
  proof (cases "items (shards m ! d) = []")
    case True
    with Cons.prems have "\<exists>d \<in> set draws. items (shards m ! d) \<noteq> []" by auto
    with Cons have "\<exists>key val m'. Pop_loop draws ord m = Some (Inr (key, val), m')" by simp
    with True Cons.prems(1) show ?thesis by (simp add: map_len_def)
  next
    case False
    with Cons.prems(1) show ?thesis
      by (cases "first_of_range (ord d (items (shards m ! d)))") (simp add: map_len_def Let_def)
  qed
qed

lemma Size_pos_iff: "Size m \<noteq> 0 \<longleftrightarrow> (\<exists>d < length (shards m). items (shards m ! d) \<noteq> [])"
proof -
  have "concat (map items (shards m)) \<noteq> [] \<longleftrightarrow> (\<exists>sd \<in> set (shards m). items sd \<noteq> [])"
    by auto
  also have "\<dots> \<longleftrightarrow> (\<exists>d < length (shards m). items (shards m ! d) \<noteq> [])"
    by (metis in_set_conv_nth)
  finally show ?thesis by (simp add: Size_eq)
qed

section \<open>Pop on empty and non-empty containers\<close>

text \<open>
  Claim C5. On a container that holds no entry, \<^verbatim>\<open>Size\<close> is 0 and \<^verbatim>\<open>Pop\<close> panics with
  \<^verbatim>\<open>syncmap: map is empty\<close>, whatever the random draws and range order would be; it
  returns no key and value, and leaves the container as it was.
\<close>

theorem Pop_empty_panics:
  assumes "concat (map items (shards m)) = []"
  shows "Size m = 0 \<and> Pop draws ord m = Some (Inl MapIsEmpty, m)"
  using assms by (simp add: Pop_def Size_eq)

theorem Pop_empty_panics_witness:
  "concat (map items (shards four_empty)) = [] \<and>
   Size four_empty = 0 \<and>
   Pop [2, 0] (\<lambda>i es. es) four_empty = Some (Inl MapIsEmpty, four_empty)"
  using Pop_empty_panics [of four_empty "[2, 0]" "\<lambda>i es. es"] by simp

text \<open>
  Claim C4. On a well-formed container that is not empty, some shard holds an entry.
  \<^verbatim>\<open>Pop\<close> returns as soon as \<^verbatim>\<open>rand.Intn\<close> draws such a shard (every draw is below
  the shard count): it returns a key and a value that \<^verbatim>\<open>Get\<close> found under that key
  just before, \<^verbatim>\<open>Size\<close> is one less afterwards, the key is gone, every other key
  is as before, and the container is well formed again.
\<close>

theorem Pop_removes_one_entry:
  assumes "well_formed m" and "Size m \<noteq> 0" and "range_order ord"
  shows "(\<exists>d. int d < shardCount m \<and> items (shards m ! d) \<noteq> []) \<and>
         (\<forall>draws.
            (\<forall>d \<in> set draws. int d < shardCount m) \<and>
            (\<exists>d \<in> set draws. items (shards m ! d) \<noteq> []) \<longrightarrow>
            (\<exists>key val m'.
               Pop draws ord m = Some (Inr (key, val), m') \<and>
               Size m' + 1 = Size m \<and>
               Get m key = Inr (val, True) \<and>
               Get m' key = Inr (Nil, False) \<and>
               (\<forall>k. k \<noteq> key \<longrightarrow> Get m' k = Get m k) \<and>
               well_formed m'))"
proof (intro conjI allI impI)
  from assms(1) have len: "int (length (shards m)) = shardCount m" and pos: "0 < shardCount m"
    by (simp_all add: well_formed_iff)
  from assms(2) obtain d where d: "d < length (shards m)" and some: "items (shards m ! d) \<noteq> []"
    unfolding Size_pos_iff by blast
  from d len have "int d < shardCount m" by linarith
  with some show "\<exists>d. int d < shardCount m \<and> items (shards m ! d) \<noteq> []"
    by blast
  fix draws
  assume "(\<forall>d \<in> set draws. int d < shardCount m) \<and> (\<exists>d \<in> set draws. items (shards m ! d) \<noteq> [])"
  with len have below: "\<forall>d \<in> set draws. d < length (shards m)"
    and hit: "\<exists>d \<in> set draws. items (shards m ! d) \<noteq> []"
    by auto
  from Pop_loop_returns [OF below hit, of ord]
  obtain key val m' where "Pop_loop draws ord m = Some (Inr (key, val), m')"
    by blast
  with assms(2) pos have pop: "Pop draws ord m = Some (Inr (key, val), m')"
    by (simp add: Pop_def)
  from Pop_InrD [OF pop] obtain idx where idx: "idx < length (shards m)"
    and ne: "items (shards m ! idx) \<noteq> []"
    and first: "first_of_range (ord idx (items (shards m ! idx))) = (key, val)"
    and m': "m' = without m idx key"
    by blast
  from first_of_range_in [OF assms(3) ne, of idx] first
  have kv: "(key, val) \<in> set (items (shards m ! idx))" by simp
  from assms(1) idx have dist: "distinct_keys (items (shards m ! idx))"
    and route: "\<forall>kv \<in> set (items (shards m ! idx)). shard_index (shardCount m) (fst kv) = idx"
    by (simp_all add: well_formed_iff)
  from route kv have at: "shard_index (shardCount m) key = idx" by fastforce
  then have loc: "locate m key = Inr idx" by (simp add: well_formed_locate [OF assms(1)])
  from dist kv have "map_of (items (shards m ! idx)) key = Some val"
    by (simp add: distinct_keys_def)
  then have before: "Get m key = Inr (val, True)"
    by (simp add: Get_well_formed [OF assms(1)] at map_index_def)
  from kv have "key \<in> fst ` set (items (shards m ! idx))" by force
  then have size: "Size m' + 1 = Size m" unfolding m' by (rule Size_without [OF idx dist])
  have after: "Get m' key = Inr (Nil, False)" by (simp add: m' Get_without [OF idx] loc)
  have others: "\<forall>k. k \<noteq> key \<longrightarrow> Get m' k = Get m k" by (simp add: m' Get_without [OF idx])
  have "well_formed m'" unfolding m' by (rule well_formed_without [OF assms(1) idx])
  with pop size before after others
  show "\<exists>key val m'.
          Pop draws ord m = Some (Inr (key, val), m') \<and>
          Size m' + 1 = Size m \<and>
          Get m key = Inr (val, True) \<and>
          Get m' key = Inr (Nil, False) \<and>
          (\<forall>k. k \<noteq> key \<longrightarrow> Get m' k = Get m k) \<and>
          well_formed m'"
    by blast
qed

theorem Pop_removes_one_entry_witness:
  "well_formed four_a \<and> Size four_a \<noteq> 0 \<and> range_order (\<lambda>i (es :: nat gomap). rev es) \<and>
   list_all (\<lambda>d. int d < shardCount four_a) [0, 3, 2, 1] \<and>
   list_ex (\<lambda>d. items (shards four_a ! d) \<noteq> []) [0, 3, 2, 1] \<and>
   Pop [0, 3, 2, 1] (\<lambda>i es. rev es) four_a = Some (Inr (''a'', Val 1), four_empty) \<and>
   Size four_empty + 1 = Size four_a \<and>
   Get four_a ''a'' = Inr (Val 1, True) \<and>
   Get four_empty ''a'' = Inr (Nil, False) \<and>
   well_formed four_empty"
proof -
  have wf: "well_formed four_a" by code_simp
  have size: "Size four_a \<noteq> 0" by code_simp
  have ord: "range_order (\<lambda>i (es :: nat gomap). rev es)" by (simp add: range_order_def)
  have below: "\<forall>d \<in> set [0, 3, 2, 1]. int d < shardCount four_a" by simp
  have hit: "\<exists>d \<in> set [0, 3, 2, 1]. items (shards four_a ! d) \<noteq> []" by simp
  have pop: "Pop [0, 3, 2, 1] (\<lambda>i es. rev es) four_a = Some (Inr (''a'', Val 1), four_empty)"
    by code_simp
  from Pop_removes_one_entry [OF wf size ord] below hit
  have "\<exists>key val m'.
          Pop [0, 3, 2, 1] (\<lambda>i es. rev es) four_a = Some (Inr (key, val), m') \<and>
          Size m' + 1 = Size four_a \<and>
          Get four_a key = Inr (val, True) \<and>
          Get m' key = Inr (Nil, False) \<and>
          (\<forall>k. k \<noteq> key \<longrightarrow> Get m' k = Get four_a k) \<and>
          well_formed m'"
    by blast
  with pop have "Size four_empty + 1 = Size four_a \<and>
          Get four_a ''a'' = Inr (Val 1, True) \<and>
          Get four_empty ''a'' = Inr (Nil, False) \<and>
          well_formed four_empty"
    by auto
  with wf size ord below hit pop show ?thesis unfolding list_all_iff list_ex_iff by blast
qed

section \<open>Traversals\<close>

lemma visit_until_range_items:
  "visit_until iter (map item_of es @ xs) s =
     (case range_items iter es s of (stop, s') \<Rightarrow> if stop then s' else visit_until iter xs s')"
  by (induction es arbitrary: s) (auto simp: item_of_def split: prod.splits)

lemma visit_until_range_keys:
  "visit_until iter (map fst es @ xs) s =
     (case range_keys iter es s of (stop, s') \<Rightarrow> if stop then s' else visit_until iter xs s')"
  by (induction es arbitrary: s) (auto split: prod.splits)

lemma EachItemWithBreak_loop_eq:
  "EachItemWithBreak_loop iter ord i ss s = visit_until iter (map item_of (walk ord i ss)) s"
  by (induction ss arbitrary: i s) (simp_all add: visit_until_range_items split: prod.splits)

lemma EachKeyWithBreak_loop_eq:
  "EachKeyWithBreak_loop iter ord i ss s = visit_until iter (map fst (walk ord i ss)) s"
  by (induction ss arbitrary: i s) (simp_all add: visit_until_range_keys split: prod.splits)

lemma visit_until_recording:
  "visit_until (recording p) xs seen = seen @ takeWhile p xs @ take 1 (dropWhile p xs)"
  by (induction xs arbitrary: seen) (simp_all add: recording_def)

lemma visit_until_always: "visit_until (\<lambda>x t. (True, iter x t)) xs s = fold iter xs s"
  by (induction xs arbitrary: s) simp_all

lemma fold_snoc: "fold (\<lambda>x seen. seen @ [x]) xs seen = seen @ xs"
  by (induction xs arbitrary: seen) simp_all

lemma EachItem_eq: "EachItem iter ord m s = fold iter (map item_of (walk ord 0 (shards m))) s"
  by (simp add: EachItem_def EachItemWithBreak_def EachItemWithBreak_loop_eq visit_until_always)

lemma mset_walk: "range_order ord \<Longrightarrow> mset (walk ord i ss) = mset (concat (map items ss))"
  by (induction ss arbitrary: i) (simp_all add: range_order_def)

lemma in_concat_itemsE:
  assumes "kv \<in> set (concat (map items ss))"
  obtains j where "j < length ss" and "kv \<in> set (items (ss ! j))"
proof -
  from assms obtain sd where "sd \<in> set ss" and "kv \<in> set (items sd)" by auto
  then show thesis by (metis in_set_conv_nth that)
qed

lemma distinct_keys_concat:
  assumes "\<forall>j < length ss. distinct_keys (items (ss ! j)) \<and>
             (\<forall>kv \<in> set (items (ss ! j)). f (fst kv) = i + j)"
  shows "distinct (map fst (concat (map items ss)))"
  using assms
proof (induction ss arbitrary: i)
  case Nil
  then show ?case by simp
next
  case (Cons sd ss)
  from Cons.prems have here: "distinct_keys (items sd)" "\<forall>kv \<in> set (items sd). f (fst kv) = i"
    by force+
  have rest: "\<forall>j < length ss. distinct_keys (items (ss ! j)) \<and>
             (\<forall>kv \<in> set (items (ss ! j)). f (fst kv) = Suc i + j)"
    using Cons.prems by force
  then have "distinct (map fst (concat (map items ss)))" by (rule Cons.IH)
  moreover have "f (fst kv) \<noteq> i" if "kv \<in> set (concat (map items ss))" for kv
  proof -
    from that obtain j where "j < length ss" "kv \<in> set (items (ss ! j))"
      by (rule in_concat_itemsE)
    with rest have "f (fst kv) = Suc i + j" by blast
    then show ?thesis by simp
  qed
  then have "fst ` set (items sd) \<inter> fst ` set (concat (map items ss)) = {}"
    using here(2) by fastforce
  ultimately show ?case using here(1) by (simp add: distinct_keys_def)
qed

lemma well_formed_distinct:
  assumes "well_formed m"
  shows "distinct (map fst (concat (map items (shards m))))"
  using assms by (intro distinct_keys_concat [where i = 0 and f = "shard_index (shardCount m)"])
    (simp add: well_formed_iff)

lemma well_formed_entries:
  assumes "well_formed m"
  shows "(k, v) \<in> set (concat (map items (shards m))) \<longleftrightarrow> Get m k = Inr (v, True)"
proof
  assume "(k, v) \<in> set (concat (map items (shards m)))"
  then obtain j where j: "j < length (shards m)" and kv: "(k, v) \<in> set (items (shards m ! j))"
    by (rule in_concat_itemsE)
  with assms have "shard_index (shardCount m) k = j" and "distinct_keys (items (shards m ! j))"
    by (fastforce simp: well_formed_iff)+
  with kv show "Get m k = Inr (v, True)"
    by (simp add: Get_well_formed [OF assms] map_index_def distinct_keys_def)
next
  let ?i = "shard_index (shardCount m) k"
  assume "Get m k = Inr (v, True)"
  then have "map_of (items (shards m ! ?i)) k = Some v"
    by (auto simp: Get_well_formed [OF assms] map_index_def split: option.splits)
  then have "(k, v) \<in> set (items (shards m ! ?i))" by (rule map_of_SomeD)
  moreover have "?i < length (shards m)" using assms by (rule well_formed_locate)
  ultimately show "(k, v) \<in> set (concat (map items (shards m)))"
    by (auto intro!: bexI [of _ "shards m ! ?i"])
qed

section \<open>What the traversals visit\<close>

lemma EachItem_calls_eq: "EachItem_calls ord m = map item_of (walk ord 0 (shards m))"
  by (simp add: EachItem_calls_def EachItem_eq fold_snoc)

lemma inj_item_of: "inj item_of"
  by (rule injI) (simp add: item_of_def prod_eq_iff)

lemma Key_item_of: "map Key (map item_of es) = map fst es"
  by (simp add: item_of_def comp_def)

text \<open>
  Claim C3. On a well-formed container, whatever the order in which the ranges yield the
  entries of each shard, the items that \<^verbatim>\<open>EachItem\<close> calls its visitor with are the
  entries of all shards, each as often as it is stored; no key comes twice; an item is
  among them exactly if \<^verbatim>\<open>Get\<close> finds its value under its key; and any visitor is
  called with exactly these items, in this order.
\<close>

theorem EachItem_visits_every_entry_once:
  assumes "range_order ord" and "well_formed (m :: 'v SyncMap)"
  shows "mset (EachItem_calls ord m) = mset (map item_of (concat (map items (shards m)))) \<and>
         distinct (map Key (EachItem_calls ord m)) \<and>
         (\<forall>k v. \<lparr>Key = k, Value = v\<rparr> \<in> set (EachItem_calls ord m) \<longleftrightarrow> Get m k = Inr (v, True)) \<and>
         EachItem iter ord m s = fold iter (EachItem_calls ord m) s"
proof (intro conjI allI)
  let ?walk = "walk ord 0 (shards m)" and ?all = "concat (map items (shards m))"
  have perm: "mset ?walk = mset ?all" using assms(1) by (rule mset_walk)
  then show "mset (EachItem_calls ord m) = mset (map item_of ?all)"
    by (simp add: EachItem_calls_eq)
  from perm have "mset (map fst ?walk) = mset (map fst ?all)" by simp
  then have "distinct (map fst ?walk) \<longleftrightarrow> distinct (map fst ?all)"
    by (rule mset_eq_imp_distinct_iff)
  with well_formed_distinct [OF assms(2)]
  show "distinct (map Key (EachItem_calls ord m))"
    by (simp only: EachItem_calls_eq Key_item_of)
  show "EachItem iter ord m s = fold iter (EachItem_calls ord m) s"
    by (simp add: EachItem_calls_eq EachItem_eq)
  fix k :: string and v :: "'v iface"
  have "\<lparr>Key = k, Value = v\<rparr> = item_of (k, v)" by (simp add: item_of_def)
  then have "\<lparr>Key = k, Value = v\<rparr> \<in> set (EachItem_calls ord m) \<longleftrightarrow> (k, v) \<in> set ?walk"
    by (simp add: EachItem_calls_eq inj_image_mem_iff [OF inj_item_of])
  also have "\<dots> \<longleftrightarrow> (k, v) \<in> set ?all" using perm by (metis set_mset_mset)
  also have "\<dots> \<longleftrightarrow> Get m k = Inr (v, True)" using assms(2) by (rule well_formed_entries)
  finally show "\<lparr>Key = k, Value = v\<rparr> \<in> set (EachItem_calls ord m) \<longleftrightarrow> Get m k = Inr (v, True)" .
qed

theorem EachItem_visits_every_entry_once_witness:
  "range_order (\<lambda>i (es :: nat gomap). rev es) \<and> well_formed four_abce \<and>
   EachItem_calls (\<lambda>i es. rev es) four_abce =
     [\<lparr>Key = ''c'', Value = Val 3\<rparr>, \<lparr>Key = ''b'', Value = Val 2\<rparr>,
      \<lparr>Key = ''e'', Value = Nil\<rparr>, \<lparr>Key = ''a'', Value = Val 1\<rparr>] \<and>
   distinct (map Key (EachItem_calls (\<lambda>i es. rev es) four_abce)) \<and>
   (\<lparr>Key = ''e'', Value = Nil\<rparr> \<in> set (EachItem_calls (\<lambda>i es. rev es) four_abce) \<longleftrightarrow>
      Get four_abce ''e'' = Inr (Nil, True)) \<and>
   EachItem (\<lambda>item n. Suc n) (\<lambda>i es. rev es) four_abce 0 = 4"
proof -
  have ord: "range_order (\<lambda>i (es :: nat gomap). rev es)" by (simp add: range_order_def)
  have wf: "well_formed four_abce" by code_simp
  have calls: "EachItem_calls (\<lambda>i es. rev es) four_abce =
     [\<lparr>Key = ''c'', Value = Val 3\<rparr>, \<lparr>Key = ''b'', Value = Val 2\<rparr>,
      \<lparr>Key = ''e'', Value = Nil\<rparr>, \<lparr>Key = ''a'', Value = Val 1\<rparr>]"
    by code_simp
  note inst = EachItem_visits_every_entry_once [OF ord wf, of "\<lambda>item n. Suc n" 0]
  from inst have "distinct (map Key (EachItem_calls (\<lambda>i es. rev es) four_abce))" by blast
  moreover from inst have "\<lparr>Key = ''e'', Value = Nil\<rparr> \<in> set (EachItem_calls (\<lambda>i es. rev es) four_abce) \<longleftrightarrow>
      Get four_abce ''e'' = Inr (Nil, True)" by blast
  moreover from inst have "EachItem (\<lambda>item n. Suc n) (\<lambda>i es. rev es) four_abce 0 =
      fold (\<lambda>item n. Suc n) (EachItem_calls (\<lambda>i es. rev es) four_abce) 0" by blast
  then have "EachItem (\<lambda>item n. Suc n) (\<lambda>i es. rev es) four_abce 0 = 4"
    by (simp only: calls) simp
  ultimately show ?thesis using ord wf calls by blast
qed

text \<open>
  Claim C7. \<^verbatim>\<open>EachItemWithBreak\<close> and \<^verbatim>\<open>EachKeyWithBreak\<close> visit the entries in the
  order of the traversal (shard after shard, each in the order of its range) and stop
  for good at the first entry for which the visitor returns \<^verbatim>\<open>false\<close>: the state the
  visitor leaves is that of visiting this sequence up to that entry, and a visitor that
  records its arguments has seen the entries before the first refusal and the refused
  one, none of the rest of that shard or of a later shard.
\<close>

theorem break_ends_traversal:
  "EachItemWithBreak iter ord m s = visit_until iter (map item_of (walk ord 0 (shards m))) s \<and>
   EachKeyWithBreak kiter ord m t = visit_until kiter (map fst (walk ord 0 (shards m))) t \<and>
   EachItemWithBreak (recording p) ord m [] =
     takeWhile p (map item_of (walk ord 0 (shards m))) @
     take 1 (dropWhile p (map item_of (walk ord 0 (shards m)))) \<and>
   EachKeyWithBreak (recording q) ord m [] =
     takeWhile q (map fst (walk ord 0 (shards m))) @
     take 1 (dropWhile q (map fst (walk ord 0 (shards m))))"
  by (simp add: EachItemWithBreak_def EachKeyWithBreak_def EachItemWithBreak_loop_eq
      EachKeyWithBreak_loop_eq visit_until_recording)

lemma break_example:
  "EachKeyWithBreak (recording (\<lambda>key. key \<noteq> ''e'')) (\<lambda>i es. es) four_abce [] = [''c'', ''b'', ''a'', ''e'']"
   "EachKeyWithBreak (recording (\<lambda>key. key \<noteq> ''b'')) (\<lambda>i es. es) four_abce [] = [''c'', ''b'']"
   "EachItemWithBreak (recording (\<lambda>item. Key item \<noteq> ''a'')) (\<lambda>i es. es) four_abce [] = 
       [\<lparr>Key = ''c'', Value = Val 3\<rparr>, \<lparr>Key = ''b'', Value = Val 2\<rparr>, \<lparr>Key = ''a'', Value = Val 1\<rparr>]"
  by code_simp+

section \<open>Well-formed containers stay well formed\<close>

lemma Set_well_formed:
  assumes "well_formed m" and "Set m k v = Inr m'"
  shows "well_formed m'"
proof -
  let ?i = "shard_index (shardCount m) k"
  from assms have m': "m' = m\<lparr>shards := (shards m)[?i := (shards m ! ?i)\<lparr>items := map_assign (items (shards m ! ?i)) k v\<rparr>]\<rparr>"
    by (simp add: Set_def well_formed_locate)
  have i: "?i < length (shards m)" using assms(1) by (rule well_formed_locate)
  show ?thesis unfolding m'
  proof (rule well_formed_update [OF assms(1) i])
    from assms(1) i show "distinct_keys (map_assign (items (shards m ! ?i)) k v)"
      by (simp add: well_formed_iff distinct_keys_map_assign)
    from assms(1) i
    have "\<forall>kv \<in> set (items (shards m ! ?i)). shard_index (shardCount m) (fst kv) = ?i"
      by (simp add: well_formed_iff)
    with set_map_assign [of "items (shards m ! ?i)" k v]
    show "\<forall>kv \<in> set (map_assign (items (shards m ! ?i)) k v). shard_index (shardCount m) (fst kv) = ?i"
      by fastforce
  qed
qed

lemma Delete_well_formed:
  assumes "well_formed m" and "Delete m k = Inr m'"
  shows "well_formed m'"
proof -
  from Delete_without [OF assms(2)] obtain i where "locate m k = Inr i" and m': "m' = without m i k"
    by blast
  then have "i < length (shards m)" by (simp add: locate_InrD)
  with assms(1) show ?thesis unfolding m' by (rule well_formed_without)
qed

lemma Flush_well_formed:
  assumes "well_formed m"
  shows "well_formed (snd (Flush m))"
  using assms by (simp add: well_formed_iff Flush_eq distinct_keys_def)

lemma Pop_well_formed:
  assumes "well_formed m" and "Pop draws ord m = Some (r, m')"
  shows "well_formed m'"
proof (cases r)
  case (Inl e)
  with assms show ?thesis by (auto dest: Pop_InlD)
next
  case (Inr kv)
  with assms(2) obtain idx where "idx < length (shards m)" and "m' = without m idx (fst kv)"
    by (cases kv) (auto dest: Pop_InrD)
  with assms(1) show ?thesis by (simp add: well_formed_without)
qed

lemma perform_well_formed:
  assumes "well_formed m" and "perform c m = Some (r, m')"
  shows "well_formed m'"
proof (cases c)
  case (CallSet key val)
  with assms show ?thesis by (auto split: sum.splits dest: Set_well_formed)
next
  case (CallDelete key)
  with assms show ?thesis by (auto split: sum.splits dest: Delete_well_formed)
next
  case CallFlush
  with assms Flush_well_formed [of m] show ?thesis by (auto split: prod.splits)
next
  case (CallPop draws ord)
  with assms show ?thesis
    by (auto split: option.splits sum.splits prod.splits dest: Pop_well_formed)
qed (use assms in \<open>auto split: sum.splits prod.splits\<close>)

lemma run_well_formed:
  assumes "well_formed m" and "run cs m = Some (r, m')"
  shows "well_formed m'"
  using assms
proof (induction cs arbitrary: m r)
  case Nil
  then show ?case by simp
next
  case (Cons c cs)
  from Cons.prems(2) obtain r1 m1 where c: "perform c m = Some (r1, m1)"
    by (cases "perform c m") auto
  with Cons.prems(1) have wf1: "well_formed m1" by (rule perform_well_formed)
  show ?case
  proof (cases r1)
    case (Inl e)
    with c Cons.prems(2) wf1 show ?thesis by simp
  next
    case (Inr a)
    with c Cons.prems(2) obtain r2 where "run cs m1 = Some (r2, m')"
      by (auto split: option.splits sum.splits prod.splits)
    with wf1 show ?thesis by (rule Cons.IH)
  qed
qed

text \<open>Every container reached from \<^verbatim>\<open>NewWithShard\<close> by calls is well formed.\<close>

lemma reachable_well_formed:
  "NewWithShard n = Inr m0 \<Longrightarrow> run cs m0 = Some (r, m) \<Longrightarrow> well_formed m"
  by (rule run_well_formed [OF NewWithShard_well_formed])

end
